theory Spec2Isabelle
  imports Main
begin

unbundle bit_operations_syntax

section \<open>Go values: interface values, slices, run-time panics\<close>

text \<open>
  The queue of \<^verbatim>\<open>Queue.go\<close> stores values of type \<^verbatim>\<open>interface{}\<close>. Such a value is
  either \<^verbatim>\<open>nil\<close> or a value of some dynamic type; the queue never inspects it, so the
  dynamic values are a type parameter.
\<close>

datatype 'a interface = GoNil | Val 'a

text \<open>
  A slice is \<^verbatim>\<open>nil\<close> or holds its elements. Every non-nil slice of the program comes from
  \<^verbatim>\<open>make([]interface{}, n)\<close>, so its capacity is its length, and no two queues share a
  backing array (every resize allocates): a slice is modelled by the list of its elements.
\<close>

datatype 'a slice = NilSlice | Slice "'a list"

datatype panic = IndexOutOfRange | SliceBoundsOutOfRange | MakeLenOutOfRange

fun elems :: "'a slice \<Rightarrow> 'a list" where
  "elems NilSlice = []"
| "elems (Slice xs) = xs"

text \<open>\<^verbatim>\<open>len(s)\<close>; Go's \<^verbatim>\<open>int\<close> is modelled by the unbounded integers: a buffer whose
  doubled length leaves 64 bits cannot be allocated.\<close>

definition len :: "'a slice \<Rightarrow> int" where
  "len s = int (length (elems s))"

text \<open>\<^verbatim>\<open>s[i]\<close> as a read and \<^verbatim>\<open>s[i] = v\<close> as a write; both panic out of range.\<close>

definition index :: "'a slice \<Rightarrow> int \<Rightarrow> panic + 'a" where
  "index s i = (if 0 \<le> i \<and> i < len s then Inr (elems s ! nat i) else Inl IndexOutOfRange)"

definition store :: "'a slice \<Rightarrow> int \<Rightarrow> 'a \<Rightarrow> panic + 'a slice" where
  "store s i v =
     (if 0 \<le> i \<and> i < len s then Inr (Slice ((elems s)[nat i := v])) else Inl IndexOutOfRange)"

text \<open>\<^verbatim>\<open>s[lo:hi]\<close>: the elements of the slice expression; it panics unless
  \<^verbatim>\<open>0 <= lo <= hi <= cap(s)\<close>, and here \<^verbatim>\<open>cap(s) = len(s)\<close>.\<close>

definition subslice :: "'a slice \<Rightarrow> int \<Rightarrow> int \<Rightarrow> panic + 'a list" where
  "subslice s lo hi =
     (if 0 \<le> lo \<and> lo \<le> hi \<and> hi \<le> len s
      then Inr (take (nat (hi - lo)) (drop (nat lo) (elems s)))
      else Inl SliceBoundsOutOfRange)"

text \<open>\<^verbatim>\<open>copy(dst[off:], src)\<close> on the array behind \<^verbatim>\<open>dst\<close>: it copies
  \<^verbatim>\<open>min(len(dst) - off, len(src))\<close> elements and returns that number with the array.\<close>

definition copy :: "'a list \<Rightarrow> nat \<Rightarrow> 'a list \<Rightarrow> nat \<times> 'a list" where
  "copy dst off src =
     (let n = min (length dst - off) (length src)
      in (n, take off dst @ take n src @ drop (off + n) dst))"

section \<open>The queue\<close>

record 'a Queue =
  buffer :: "'a interface slice"
  head :: int
  tail :: int
  length_q :: int

definition init :: "'a Queue \<Rightarrow> 'a Queue" where
  "init q = q\<lparr>buffer := Slice (replicate 1 GoNil), head := 0, tail := 0, length_q := 0\<rparr>"

text \<open>\<^verbatim>\<open>new(Queue)\<close> is the zero value of the struct.\<close>

definition zero_Queue :: "'a Queue" where
  "zero_Queue = \<lparr>buffer = NilSlice, head = 0, tail = 0, length_q = 0\<rparr>"

definition NewQueue :: "'a Queue" where
  "NewQueue = init zero_Queue"

definition nextpos :: "'a Queue \<Rightarrow> int \<Rightarrow> int" where
  "nextpos q i = (i + 1) AND (len (buffer q) - 1)"

definition prevpos :: "'a Queue \<Rightarrow> int \<Rightarrow> int" where
  "prevpos q i = (i - 1) AND (len (buffer q) - 1)"

definition excessCapacity :: "'a Queue \<Rightarrow> bool" where
  "excessCapacity q \<longleftrightarrow> length_q q > 0 \<and> length_q q < len (buffer q) div 4"

text \<open>
  \<^verbatim>\<open>resize\<close>. Go's \<^verbatim>\<open>size%2 != 0\<close> and \<open>size mod 2 \<noteq> 0\<close> agree on every integer (the
  remainders differ in sign only). \<^verbatim>\<open>make\<close> panics on a negative length. In the second
  branch \<^verbatim>\<open>newbuffer[n:]\<close> is always in range, \<^verbatim>\<open>n\<close> being a number of elements copied
  into \<^verbatim>\<open>newbuffer\<close>.
\<close>

definition resize :: "int \<Rightarrow> 'a Queue \<Rightarrow> panic + 'a Queue" where
  "resize size0 q =
     (let size = (if size0 mod 2 \<noteq> 0 then size0 + 1 else size0) in
      if size < 0 then Inl MakeLenOutOfRange
      else
        let newbuffer = replicate (nat size) GoNil;
            copied =
              (if head q < tail q then
                 (case subslice (buffer q) (head q) (tail q) of
                    Inl e \<Rightarrow> Inl e
                  | Inr src \<Rightarrow> Inr (snd (copy newbuffer 0 src)))
               else
                 (case subslice (buffer q) (head q) (len (buffer q)) of
                    Inl e \<Rightarrow> Inl e
                  | Inr src1 \<Rightarrow>
                      (case copy newbuffer 0 src1 of
                         (n, newbuffer1) \<Rightarrow>
                           (case subslice (buffer q) 0 (tail q) of
                              Inl e \<Rightarrow> Inl e
                            | Inr src2 \<Rightarrow> Inr (snd (copy newbuffer1 n src2))))))
        in (case copied of
              Inl e \<Rightarrow> Inl e
            | Inr newbuffer' \<Rightarrow>
                Inr (q\<lparr>buffer := Slice newbuffer', head := 0, tail := length_q q\<rparr>)))"

definition grow :: "'a Queue \<Rightarrow> panic + 'a Queue" where
  "grow q = resize (len (buffer q) * 2) q"

definition shrink :: "'a Queue \<Rightarrow> panic + 'a Queue" where
  "shrink q = resize (len (buffer q) div 2) q"

definition Push :: "'a interface \<Rightarrow> 'a Queue \<Rightarrow> panic + 'a Queue" where
  "Push entry q0 =
     (let q1 = (if buffer q0 = NilSlice then init q0 else q0) in
      case (if length_q q1 = len (buffer q1) then grow q1 else Inr q1) of
        Inl e \<Rightarrow> Inl e
      | Inr q2 \<Rightarrow>
          (case store (buffer q2) (tail q2) entry of
             Inl e \<Rightarrow> Inl e
           | Inr b \<Rightarrow>
               let q3 = q2\<lparr>buffer := b\<rparr>;
                   q4 = q3\<lparr>tail := nextpos q3 (tail q3)\<rparr>
               in Inr (q4\<lparr>length_q := length_q q4 + 1\<rparr>)))"

definition Pop :: "'a Queue \<Rightarrow> panic + ('a interface \<times> 'a Queue)" where
  "Pop q =
     (if length_q q = 0 then Inr (GoNil, q)
      else
        case index (buffer q) (head q) of
          Inl e \<Rightarrow> Inl e
        | Inr retVal \<Rightarrow>
            (case store (buffer q) (head q) GoNil of
               Inl e \<Rightarrow> Inl e
             | Inr b \<Rightarrow>
                 let q1 = q\<lparr>buffer := b\<rparr>;
                     q2 = q1\<lparr>head := nextpos q1 (head q1)\<rparr>;
                     q3 = q2\<lparr>length_q := length_q q2 - 1\<rparr>
                 in (case (if excessCapacity q3 then shrink q3 else Inr q3) of
                       Inl e \<Rightarrow> Inl e
                     | Inr q4 \<Rightarrow> Inr (retVal, q4))))"

definition Peek :: "'a Queue \<Rightarrow> panic + 'a interface" where
  "Peek q = index (buffer q) (head q)"

definition Length :: "'a Queue \<Rightarrow> int" where
  "Length q = length_q q"

definition Clear :: "'a Queue \<Rightarrow> 'a Queue" where
  "Clear q = init q"

text \<open>
  \<^verbatim>\<open>fmt.Sprintf("%v", x)\<close>: a nil interface value prints as \<^verbatim>\<open><nil>\<close>; how a dynamic
  value prints depends on its type, so that part is the parameter \<open>fmt\<close> (for a Go string,
  the string itself).
\<close>

fun Sprintf_v :: "('a \<Rightarrow> string) \<Rightarrow> 'a interface \<Rightarrow> string" where
  "Sprintf_v fmt GoNil = ''<nil>''"
| "Sprintf_v fmt (Val x) = fmt x"

text \<open>The loop of \<^verbatim>\<open>String\<close>, with its variables \<^verbatim>\<open>i\<close>, \<^verbatim>\<open>j\<close> and \<^verbatim>\<open>retVal\<close>.\<close>

function String_loop ::
  "('a \<Rightarrow> string) \<Rightarrow> 'a Queue \<Rightarrow> int \<Rightarrow> int \<Rightarrow> string \<Rightarrow> panic + string" where
  "String_loop fmt q i j retVal =
     (if i < length_q q then
        (case index (buffer q) j of
           Inl e \<Rightarrow> Inl e
         | Inr v \<Rightarrow>
             let retVal1 = retVal @ Sprintf_v fmt v;
                 retVal2 = (if i < length_q q - 1 then retVal1 @ '' | '' else retVal1)
             in String_loop fmt q (i + 1) (nextpos q j) retVal2)
      else Inr retVal)"
  by pat_completeness auto
termination
  by (relation "measure (\<lambda>(fmt, q, i, j, retVal). nat (length_q q - i))") auto

definition String :: "('a \<Rightarrow> string) \<Rightarrow> 'a Queue \<Rightarrow> panic + string" where
  "String fmt q = String_loop fmt q 0 (head q) []"

text \<open>Evaluating the loop needs the condition decided first; its equation is unfolded by hand.\<close>

declare String_loop.simps [simp del]

section \<open>Histories of operations and the reference model\<close>

text \<open>
  A queue is reachable when it comes from \<^verbatim>\<open>NewQueue()\<close> by calls of \<^verbatim>\<open>Push\<close>, \<^verbatim>\<open>Pop\<close> and
  \<^verbatim>\<open>Clear\<close> that return.
\<close>

inductive reachable :: "'a Queue \<Rightarrow> bool" where
  new: "reachable NewQueue"
| push: "reachable q \<Longrightarrow> Push v q = Inr q' \<Longrightarrow> reachable q'"
| pop: "reachable q \<Longrightarrow> Pop q = Inr (r, q') \<Longrightarrow> reachable q'"
| clear: "reachable q \<Longrightarrow> reachable (Clear q)"

datatype 'a op = OpPush "'a interface" | OpPop | OpClear

text \<open>What a caller sees of one call: the value \<^verbatim>\<open>Pop\<close> returned (nothing for the other
  calls) and \<^verbatim>\<open>Length()\<close> after the call.\<close>

type_synonym 'a obs = "'a interface option \<times> int"

fun step :: "'a op \<Rightarrow> 'a Queue \<Rightarrow> panic + ('a obs \<times> 'a Queue)" where
  "step (OpPush v) q =
     (case Push v q of Inl e \<Rightarrow> Inl e | Inr q' \<Rightarrow> Inr ((None, Length q'), q'))"
| "step OpPop q =
     (case Pop q of Inl e \<Rightarrow> Inl e | Inr (r, q') \<Rightarrow> Inr ((Some r, Length q'), q'))"
| "step OpClear q = Inr ((None, Length (Clear q)), Clear q)"

fun run :: "'a op list \<Rightarrow> 'a Queue \<Rightarrow> panic + ('a obs list \<times> 'a Queue)" where
  "run [] q = Inr ([], q)"
| "run (c # cs) q =
     (case step c q of
        Inl e \<Rightarrow> Inl e
      | Inr (ob, q') \<Rightarrow>
          (case run cs q' of Inl e \<Rightarrow> Inl e | Inr (obs, q'') \<Rightarrow> Inr (ob # obs, q'')))"

text \<open>
  The reference model of the specification: an unbounded list, oldest entry first. Its
  \<open>pop\<close> of the empty list yields absence, which a caller of the Go queue sees as
  \<^verbatim>\<open>nil\<close>.
\<close>

fun ref_step :: "'a op \<Rightarrow> 'a interface list \<Rightarrow> 'a obs \<times> 'a interface list" where
  "ref_step (OpPush v) xs = ((None, int (length (xs @ [v]))), xs @ [v])"
| "ref_step OpPop [] = ((Some GoNil, 0), [])"
| "ref_step OpPop (x # xs) = ((Some x, int (length xs)), xs)"
| "ref_step OpClear xs = ((None, 0), [])"

fun ref_run :: "'a op list \<Rightarrow> 'a interface list \<Rightarrow> 'a obs list \<times> 'a interface list" where
  "ref_run [] xs = ([], xs)"
| "ref_run (c # cs) xs =
     (case ref_step c xs of
        (ob, xs') \<Rightarrow> (case ref_run cs xs' of (obs, xs'') \<Rightarrow> (ob # obs, xs'')))"

text \<open>The values returned by the \<^verbatim>\<open>Pop\<close> calls of a history, in order.\<close>

fun pop_results :: "'a obs list \<Rightarrow> 'a interface list" where
  "pop_results [] = []"
| "pop_results ((None, n) # obs) = pop_results obs"
| "pop_results ((Some r, n) # obs) = r # pop_results obs"

section \<open>The ring seen as a list\<close>

definition cap :: "'a Queue \<Rightarrow> int" where
  "cap q = len (buffer q)"

text \<open>The buffer read from \<open>head\<close> on, with wrap-around, and its first \<open>length\<close> entries:
  the live entries from head to tail.\<close>

definition ring :: "'a Queue \<Rightarrow> 'a interface list" where
  "ring q = rotate (nat (head q)) (elems (buffer q))"

definition live_entries :: "'a Queue \<Rightarrow> 'a interface list" where
  "live_entries q = take (nat (length_q q)) (ring q)"

text \<open>The buffer indices of the live entries: \<open>length\<close> slots from \<open>head\<close>, wrapping.\<close>

definition live_positions :: "'a Queue \<Rightarrow> int list" where
  "live_positions q =
     map (\<lambda>k. (head q + int k) mod len (buffer q)) [0..<nat (length_q q)]"

text \<open>Strings joined by a delimiter, none before the first or after the last.\<close>

fun join :: "string \<Rightarrow> string list \<Rightarrow> string" where
  "join d [] = []"
| "join d [x] = x"
| "join d (x # y # ys) = x @ d @ join d (y # ys)"

text \<open>The invariant of the representation.\<close>

definition wf :: "'a Queue \<Rightarrow> bool" where
  "wf q \<longleftrightarrow>
     buffer q \<noteq> NilSlice \<and> (\<exists>n::nat. cap q = 2 ^ n) \<and>
     0 \<le> head q \<and> head q < cap q \<and> 0 \<le> length_q q \<and> length_q q \<le> cap q \<and>
     tail q = (head q + length_q q) mod cap q \<and>
     drop (nat (length_q q)) (ring q) = replicate (nat (cap q - length_q q)) GoNil"

section \<open>Arithmetic of positions and rotation\<close>

lemma nextpos_mod: "len (buffer q) = 2 ^ n \<Longrightarrow> nextpos q i = (i + 1) mod len (buffer q)"
  by (simp add: nextpos_def take_bit_eq_mod flip: take_bit_eq_mask mask_eq_exp_minus_1)

lemma mod_shift_inj_le:
  fixes h k j n :: nat
  assumes "k \<le> j" "j < n" "(h + k) mod n = (h + j) mod n"
  shows "k = j"
proof -
  have "n dvd (h + j) - (h + k)"
    using assms mod_eq_dvd_iff_nat[of "h + k" "h + j" n] by simp
  then have "n dvd j - k" by simp
  moreover have "j - k < n" using assms by simp
  ultimately have "j - k = 0"
    using nat_dvd_not_less[of "j - k" n] by (cases "j - k = 0") auto
  then show ?thesis using assms by simp
qed

lemma mod_shift_inj:
  fixes h k j n :: nat
  assumes "k < n" "j < n" "(h + k) mod n = (h + j) mod n"
  shows "k = j"
proof (cases "k \<le> j")
  case True
  then show ?thesis using assms mod_shift_inj_le[of k j n h] by simp
next
  case False
  then show ?thesis using assms mod_shift_inj_le[of j k n h] by simp
qed

lemma rotate_update:
  assumes "k < length xs"
  shows "rotate h (xs[(h + k) mod length xs := v]) = (rotate h xs)[k := v]"
proof (rule nth_equalityI)
  show "length (rotate h (xs[(h + k) mod length xs := v])) = length ((rotate h xs)[k := v])"
    by simp
next
  fix i assume "i < length (rotate h (xs[(h + k) mod length xs := v]))"
  then have i: "i < length xs" by simp
  have "((h + i) mod length xs = (h + k) mod length xs) = (i = k)"
    using mod_shift_inj[OF i assms] by auto
  moreover have "(h + k) mod length xs < length xs" using assms by (intro mod_less_divisor) auto
  ultimately show "rotate h (xs[(h + k) mod length xs := v]) ! i = (rotate h xs)[k := v] ! i"
    using i assms by (auto simp add: nth_rotate nth_list_update)
qed

lemma rotate_Suc_nonempty:
  "xs \<noteq> [] \<Longrightarrow> rotate (Suc h) xs = tl (rotate h xs) @ [hd (rotate h xs)]"
  by (cases "rotate h xs") (auto simp: rotate1_def)

section \<open>Resizing\<close>


lemma resize_explicit:
  assumes b: "buffer q = Slice xs" and h: "head q = int h" and l: "length_q q = int l"
    and hC: "h < length xs" and l0: "0 < l" and lC: "l \<le> length xs"
    and t: "tail q = int ((h + l) mod length xs)" and lS: "l \<le> 2 * S"
  shows "resize (2 * int S) q =
         Inr (q\<lparr>buffer := Slice (take l (rotate h xs) @ replicate (2 * S - l) GoNil),
               head := 0, tail := int l\<rparr>)"
proof (cases "h + l < length xs")
  case True
  then have t': "tail q = int (h + l)" using t by simp
  have live: "take l (rotate h xs) = take l (drop h xs)"
    using True hC by (simp add: rotate_drop_take)
  have sub: "subslice (buffer q) (head q) (tail q) = Inr (take l (drop h xs))"
    using True by (simp add: subslice_def b h t' len_def)
  have cp: "snd (copy (replicate (2 * S) GoNil) 0 (take l (drop h xs)))
            = take l (drop h xs) @ replicate (2 * S - l) GoNil"
    using True lS by (simp add: copy_def min_def)
  have sz: "nat (2 * int S) = 2 * S" by simp
  have lt: "head q < tail q" using l0 by (simp add: h t')
  show ?thesis
    unfolding resize_def Let_def
    by (simp add: lt sub cp sz l live del: replicate_Suc)
next
  case False
  then have ge: "length xs \<le> h + l" by simp
  have lt2: "h + l < 2 * length xs" using hC lC by simp
  have tm: "(h + l) mod length xs = h + l - length xs"
    using ge lt2 by (simp add: le_mod_geq)
  define t where "t = h + l - length xs"
  have t': "tail q = int t" using t tm t_def by simp
  have th: "t \<le> h" using lC t_def by simp
  have lt_eq: "l - (length xs - h) = t" using ge hC by (simp add: t_def)
  have live: "take l (rotate h xs) = drop h xs @ take t xs"
    using hC th ge by (simp add: rotate_drop_take lt_eq min_absorb2)
  have sub1: "subslice (buffer q) (head q) (len (buffer q)) = Inr (drop h xs)"
    using hC by (simp add: subslice_def b h len_def)
  have sub2: "subslice (buffer q) 0 (tail q) = Inr (take t xs)"
    using th hC by (simp add: subslice_def b t' len_def)
  have n1: "min (2 * S) (length xs - h) = length xs - h" using ge lS hC by simp
  have n2: "min (2 * S - (length xs - h)) t = t" using lC lS hC ge by (simp add: t_def)
  have cp1: "copy (replicate (2 * S) GoNil) 0 (drop h xs)
            = (length xs - h, drop h xs @ replicate (2 * S - (length xs - h)) GoNil)"
    using n1 by (simp add: copy_def Let_def)
  have cp2: "snd (copy (drop h xs @ replicate (2 * S - (length xs - h)) GoNil) (length xs - h) (take t xs))
            = drop h xs @ take t xs @ replicate (2 * S - l) GoNil"
    using n2 th hC lt_eq ge lS by (simp add: copy_def Let_def)
  have sz: "nat (2 * int S) = 2 * S" by simp
  have nlt: "\<not> head q < tail q" using th by (simp add: h t')
  show ?thesis
    unfolding resize_def Let_def
    by (simp add: nlt sub1 sub2 cp1 cp2 sz live l del: replicate_Suc)
qed

lemma wfE:
  assumes "wf q"
  obtains xs n h l where
    "buffer q = Slice xs" "length xs = 2 ^ n" "head q = int h" "length_q q = int l"
    "h < length xs" "l \<le> length xs" "tail q = int ((h + l) mod length xs)"
    "drop l (rotate h xs) = replicate (length xs - l) GoNil"
proof -
  from assms obtain xs where xs: "buffer q = Slice xs"
    by (cases "buffer q") (auto simp: wf_def)
  from assms obtain n :: nat where n: "cap q = 2 ^ n" by (auto simp: wf_def)
  have C: "cap q = int (length xs)" by (simp add: cap_def len_def xs)
  have len: "length xs = 2 ^ n"
    using n C by (metis of_nat_eq_iff of_nat_numeral of_nat_power)
  have w: "0 \<le> head q" "head q < cap q" "0 \<le> length_q q" "length_q q \<le> cap q"
    and wt: "tail q = (head q + length_q q) mod cap q"
    and wd: "drop (nat (length_q q)) (ring q) = replicate (nat (cap q - length_q q)) GoNil"
    using assms by (simp_all add: wf_def)
  define h where "h = nat (head q)"
  define l where "l = nat (length_q q)"
  have hq: "head q = int h" and lq: "length_q q = int l"
    using w by (simp_all add: h_def l_def)
  have "h < length xs" "l \<le> length xs"
    using w C by (auto simp add: h_def l_def)
  moreover have "tail q = int ((h + l) mod length xs)"
    using wt by (simp add: C hq lq zmod_int)
  moreover have "drop l (rotate h xs) = replicate (length xs - l) GoNil"
    using wd by (simp add: C hq lq ring_def xs nat_diff_distrib')
  ultimately show thesis using that xs len hq lq by blast
qed

lemma wfI:
  assumes "buffer q = Slice xs" "length xs = 2 ^ n" "head q = int h" "length_q q = int l"
    "h < length xs" "l \<le> length xs" "tail q = int ((h + l) mod length xs)"
    "drop l (rotate h xs) = replicate (length xs - l) GoNil"
  shows "wf q"
proof -
  have C: "cap q = int (length xs)" by (simp add: cap_def len_def assms(1))
  have "cap q = 2 ^ n" using C assms(2) by simp
  then have "\<exists>n::nat. cap q = 2 ^ n" by blast
  moreover have "nat (int (length xs) - int l) = length xs - l" by simp
  ultimately show ?thesis
    unfolding wf_def using assms C
    by (simp add: ring_def zmod_int)
qed

lemma resize_wf:
  assumes wf: "wf q" and pos: "0 < length_q q" and lt: "length_q q < 2 * int S"
    and pow: "2 * S = 2 ^ m"
  shows "\<exists>q'. resize (2 * int S) q = Inr q' \<and> wf q' \<and> live_entries q' = live_entries q \<and>
              cap q' = 2 * int S \<and> length_q q' = length_q q"
proof -
  from wf obtain xs n h l where
    b: "buffer q = Slice xs" and len: "length xs = 2 ^ n" and h: "head q = int h"
    and l: "length_q q = int l" and hC: "h < length xs" and lC: "l \<le> length xs"
    and t: "tail q = int ((h + l) mod length xs)"
    and dead: "drop l (rotate h xs) = replicate (length xs - l) GoNil"
    by (rule wfE)
  have l0: "0 < l" and lS: "l < 2 * S" using pos lt l by simp_all
  define ys where "ys = take l (rotate h xs) @ replicate (2 * S - l) GoNil"
  define q' where "q' = q\<lparr>buffer := Slice ys, head := 0, tail := int l\<rparr>"
  have r: "resize (2 * int S) q = Inr q'"
    unfolding q'_def ys_def
    using resize_explicit[OF b h l hC l0 lC t, of S] lS by simp
  have lys: "length ys = 2 * S" using lS lC by (simp add: ys_def)
  have "wf q'"
  proof (rule wfI[where xs = ys and n = m and h = 0 and l = l])
    show "drop l (rotate 0 ys) = replicate (length ys - l) GoNil"
      using lC by (simp add: ys_def lys[unfolded ys_def])
  qed (use lS lys pow l in \<open>simp_all add: q'_def\<close>)
  moreover have "live_entries q' = live_entries q"
    using lC by (simp add: live_entries_def ring_def q'_def ys_def b h l)
  moreover have "cap q' = 2 * int S" using lys by (simp add: cap_def len_def q'_def)
  moreover have "length_q q' = length_q q" by (simp add: q'_def)
  ultimately show ?thesis using r by blast
qed


lemma wf_NewQueue: "wf NewQueue"
  by (rule wfI[where xs = "[GoNil]" and n = 0 and h = 0 and l = 0])
     (simp_all add: NewQueue_def init_def zero_Queue_def)

lemma wf_init: "wf (init q)"
  by (rule wfI[where xs = "[GoNil]" and n = 0 and h = 0 and l = 0])
     (simp_all add: init_def)

lemma live_entries_init: "live_entries (init q) = []"
  by (simp add: live_entries_def init_def)

lemma grow_wf:
  assumes wf: "wf q" and full: "length_q q = cap q"
  shows "\<exists>q'. grow q = Inr q' \<and> wf q' \<and> live_entries q' = live_entries q \<and>
              cap q' = 2 * cap q \<and> length_q q' = length_q q"
proof -
  from wf obtain xs n where b: "buffer q = Slice xs" and len: "length xs = 2 ^ n"
    by (rule wfE)
  have C: "cap q = int (length xs)" by (simp add: cap_def len_def b)
  have "0 < length_q q" using full C len by simp
  moreover have "length_q q < 2 * int (length xs)" using full C len by simp
  moreover have "2 * length xs = 2 ^ Suc n" using len by simp
  moreover have "len (buffer q) * 2 = 2 * int (length xs)" by (simp add: len_def b)
  then have "grow q = resize (2 * int (length xs)) q" unfolding grow_def by (simp only:)
  ultimately show ?thesis
    using resize_wf[OF wf, of "length xs" "Suc n"] C
    by simp
qed

lemma shrink_wf:
  assumes wf: "wf q" and ex: "excessCapacity q"
  shows "\<exists>q'. shrink q = Inr q' \<and> wf q' \<and> live_entries q' = live_entries q \<and>
              cap q' = cap q div 2 \<and> length_q q' = length_q q"
proof -
  from wf obtain xs n where b: "buffer q = Slice xs" and len: "length xs = 2 ^ n"
    by (rule wfE)
  have C: "cap q = 2 ^ n" by (simp add: cap_def len_def b len)
  have pos: "0 < length_q q" and lt: "length_q q < cap q div 4"
    using ex by (simp_all add: excessCapacity_def cap_def)
  have "8 \<le> cap q" using pos lt by simp
  have n3: "3 \<le> n"
  proof (rule ccontr)
    assume "\<not> 3 \<le> n"
    then have "n \<le> 2" by simp
    then have "(2::int) ^ n \<le> 2 ^ 2" by (rule power_increasing) simp
    then show False using \<open>8 \<le> cap q\<close> C by simp
  qed
  then obtain k where k: "n = 3 + k" using le_Suc_ex by blast
  define S :: nat where "S = 2 * 2 ^ k"
  have C8: "cap q = 8 * 2 ^ k" using C k by (simp add: power_add)
  have half: "cap q div 2 = 2 * int S" and quart: "cap q div 4 = int S"
    by (simp_all add: S_def C8)
  have "length_q q < 2 * int S" using lt quart by simp
  moreover have "2 * S = 2 ^ Suc (Suc k)" by (simp add: S_def)
  moreover have "shrink q = resize (2 * int S) q"
    using half unfolding shrink_def cap_def by (simp only:)
  ultimately show ?thesis
    using resize_wf[OF wf pos, of S "Suc (Suc k)"] half
    by simp
qed

section \<open>Push and Pop on a well-formed queue\<close>


lemma put_wf:
  fixes q :: "'a Queue" and v :: "'a interface"
  assumes wf: "wf q" and room: "length_q q < cap q"
  defines "q' \<equiv> q\<lparr>buffer := Slice ((elems (buffer q))[nat (tail q) := v]),
                    tail := nextpos q (tail q), length_q := length_q q + 1\<rparr>"
  shows "store (buffer q) (tail q) v = Inr (buffer q')"
    and "wf q'" and "live_entries q' = live_entries q @ [v]" and "cap q' = cap q"
proof -
  from wf obtain xs n h l where
    b: "buffer q = Slice xs" and len: "length xs = 2 ^ n" and h: "head q = int h"
    and l: "length_q q = int l" and hC: "h < length xs" and lC: "l \<le> length xs"
    and t: "tail q = int ((h + l) mod length xs)"
    and dead: "drop l (rotate h xs) = replicate (length xs - l) GoNil"
    by (rule wfE)
  have C: "cap q = int (length xs)" by (simp add: cap_def len_def b)
  have l_lt: "l < length xs" using room C l by simp
  define t where "t = (h + l) mod length xs"
  have tq: "tail q = int t" using t t_def by simp
  have Cpos: "0 < length xs" using len by simp
  have tC: "t < length xs" using Cpos by (simp add: t_def)
  have b': "buffer q' = Slice (xs[t := v])" by (simp add: q'_def b tq)
  show "store (buffer q) (tail q) v = Inr (buffer q')"
    using tC by (simp add: store_def b' b tq len_def)
  have len2: "len (buffer q) = 2 ^ n" using len by (simp add: len_def b)
  have np: "nextpos q (tail q) = int ((h + (l + 1)) mod length xs)"
    unfolding nextpos_mod[OF len2] tq t_def
    by (simp add: len_def b zmod_int mod_simps add.commute)
  have rot: "rotate h (xs[t := v]) = (rotate h xs)[l := v]"
    unfolding t_def using l_lt by (rule rotate_update)
  show "wf q'"
  proof (rule wfI[where xs = "xs[t := v]" and n = n and h = h and l = "l + 1"])
    have "drop (l + 1) ((rotate h xs)[l := v]) = drop 1 (drop l (rotate h xs))" by simp
    also have "\<dots> = drop 1 (replicate (length xs - l) GoNil)" by (simp only: dead)
    also have "\<dots> = replicate (length xs - (l + 1)) GoNil" by simp
    finally show "drop (l + 1) (rotate h (xs[t := v])) = replicate (length (xs[t := v]) - (l + 1)) GoNil"
      by (simp add: rot)
  qed (use b' len hC l_lt np in \<open>simp_all add: q'_def h l\<close>)
  have hq': "head q' = int h" and lq': "length_q q' = int (Suc l)"
    by (simp_all add: q'_def h l)
  show "live_entries q' = live_entries q @ [v]"
    using l_lt
    by (simp add: live_entries_def ring_def b' b hq' lq' h l rot take_Suc_conv_app_nth
             del: of_nat_Suc)
  show "cap q' = cap q" by (simp add: cap_def len_def b' b)
qed


lemma wf_not_nil: "wf q \<Longrightarrow> buffer q \<noteq> NilSlice"
  by (simp add: wf_def)

lemma put_step:
  fixes q :: "'a Queue" and v :: "'a interface"
  assumes wf: "wf q" and room: "length_q q < cap q"
  shows "\<exists>q'. (case store (buffer q) (tail q) v of
                 Inl e \<Rightarrow> Inl e
               | Inr b \<Rightarrow>
                   let q3 = q\<lparr>buffer := b\<rparr>;
                       q4 = q3\<lparr>tail := nextpos q3 (tail q3)\<rparr>
                   in Inr (q4\<lparr>length_q := length_q q4 + 1\<rparr>)) = Inr q' \<and>
              wf q' \<and> live_entries q' = live_entries q @ [v] \<and> cap q' = cap q \<and>
              length_q q' = length_q q + 1"
proof -
  define q' where "q' = q\<lparr>buffer := Slice ((elems (buffer q))[nat (tail q) := v]),
                    tail := nextpos q (tail q), length_q := length_q q + 1\<rparr>"
  note p = put_wf[OF wf room, of v, folded q'_def]
  have "len (buffer q') = len (buffer q)" using p(4) by (simp add: cap_def)
  then have np: "nextpos (q\<lparr>buffer := buffer q'\<rparr>) (tail q) = nextpos q (tail q)"
    by (simp add: nextpos_def)
  have "(let q3 = q\<lparr>buffer := buffer q'\<rparr>;
             q4 = q3\<lparr>tail := nextpos q3 (tail q3)\<rparr>
         in q4\<lparr>length_q := length_q q4 + 1\<rparr>) = q'"
    by (simp add: Let_def np) (simp add: q'_def)
  then show ?thesis using p by (simp add: Let_def) (simp add: q'_def)
qed

lemma Push_wf:
  fixes q :: "'a Queue" and v :: "'a interface"
  assumes wf: "wf q"
  shows "\<exists>q'. Push v q = Inr q' \<and> wf q' \<and> live_entries q' = live_entries q @ [v] \<and>
              length_q q' = length_q q + 1 \<and>
              cap q' = (if length_q q = cap q then 2 * cap q else cap q)"
proof (cases "length_q q = cap q")
  case True
  from grow_wf[OF wf True] obtain q2 where g: "grow q = Inr q2" and wf2: "wf q2"
    and live2: "live_entries q2 = live_entries q" and cap2: "cap q2 = 2 * cap q"
    and len2: "length_q q2 = length_q q" by blast
  have "0 < cap q" using wf by (auto simp: wf_def)
  then have room: "length_q q2 < cap q2" using True cap2 len2 by simp
  from put_step[OF wf2 room, of v] obtain q' where
    "(case store (buffer q2) (tail q2) v of
        Inl e \<Rightarrow> Inl e
      | Inr b \<Rightarrow>
          let q3 = q2\<lparr>buffer := b\<rparr>;
              q4 = q3\<lparr>tail := nextpos q3 (tail q3)\<rparr>
          in Inr (q4\<lparr>length_q := length_q q4 + 1\<rparr>)) = Inr q'"
    and r: "wf q'" "live_entries q' = live_entries q2 @ [v]" "cap q' = cap q2"
      "length_q q' = length_q q2 + 1" by blast
  then have "Push v q = Inr q'"
    using True wf_not_nil[OF wf] g by (simp add: Push_def cap_def)
  then show ?thesis using r True live2 cap2 len2 by simp
next
  case False
  then have room: "length_q q < cap q" using wf by (simp add: wf_def)
  from put_step[OF wf room, of v] obtain q' where
    "(case store (buffer q) (tail q) v of
        Inl e \<Rightarrow> Inl e
      | Inr b \<Rightarrow>
          let q3 = q\<lparr>buffer := b\<rparr>;
              q4 = q3\<lparr>tail := nextpos q3 (tail q3)\<rparr>
          in Inr (q4\<lparr>length_q := length_q q4 + 1\<rparr>)) = Inr q'"
    and r: "wf q'" "live_entries q' = live_entries q @ [v]" "cap q' = cap q"
      "length_q q' = length_q q + 1" by blast
  then have "Push v q = Inr q'"
    using False wf_not_nil[OF wf] by (simp add: Push_def cap_def)
  then show ?thesis using r False by simp
qed


lemma take_wf:
  fixes q :: "'a Queue"
  assumes wf: "wf q" and ne: "0 < length_q q"
  defines "q' \<equiv> q\<lparr>buffer := Slice ((elems (buffer q))[nat (head q) := GoNil]),
                    head := nextpos q (head q), length_q := length_q q - 1\<rparr>"
  shows "index (buffer q) (head q) = Inr (hd (live_entries q))"
    and "store (buffer q) (head q) GoNil = Inr (buffer q')"
    and "wf q'" and "live_entries q' = tl (live_entries q)" and "cap q' = cap q"
proof -
  from wf obtain xs n h l where
    b: "buffer q = Slice xs" and len: "length xs = 2 ^ n" and h: "head q = int h"
    and l: "length_q q = int l" and hC: "h < length xs" and lC: "l \<le> length xs"
    and t: "tail q = int ((h + l) mod length xs)"
    and dead: "drop l (rotate h xs) = replicate (length xs - l) GoNil"
    by (rule wfE)
  have l0: "0 < l" using ne l by simp
  have Cpos: "0 < length xs" using len by simp
  obtain a L where L: "rotate h xs = a # L"
    using Cpos by (cases "rotate h xs") auto
  have lenL: "length L = length xs - 1"
    using arg_cong[OF L, of length] by simp
  have a: "a = xs ! h"
    using nth_rotate[of 0 xs h] Cpos hC by (simp add: L)
  have live: "live_entries q = take l (a # L)"
    by (simp add: live_entries_def ring_def b h l L)
  obtain l' where l': "l = Suc l'" using l0 by (cases l) auto
  show "index (buffer q) (head q) = Inr (hd (live_entries q))"
    using hC by (simp add: index_def b h len_def live l' a)
  have b': "buffer q' = Slice (xs[h := GoNil])" by (simp add: q'_def b h)
  show "store (buffer q) (head q) GoNil = Inr (buffer q')"
    using hC by (simp add: store_def b' b h len_def)
  have len2: "len (buffer q) = 2 ^ n" using len by (simp add: len_def b)
  have hq': "head q' = int ((h + 1) mod length xs)"
    by (simp add: q'_def nextpos_mod[OF len2] h len_def b zmod_int add.commute)
  have lq': "length_q q' = int l'" by (simp add: q'_def l l')
  have "rotate h (xs[(h + 0) mod length xs := GoNil]) = (rotate h xs)[0 := GoNil]"
    using Cpos by (rule rotate_update)
  then have R: "rotate h (xs[h := GoNil]) = GoNil # L" using hC by (simp add: L)
  have "rotate ((h + 1) mod length xs) (xs[h := GoNil]) = rotate (Suc h) (xs[h := GoNil])"
    using rotate_conv_mod[of "Suc h" "xs[h := GoNil]"] by simp
  also have "\<dots> = L @ [GoNil]" by (simp add: R)
  finally have ring': "ring q' = L @ [GoNil]" by (simp add: ring_def b' hq')
  have dL: "drop l' L = replicate (length xs - l) GoNil" using dead by (simp add: L l')
  have l'L: "l' \<le> length L" using lC lenL l' by simp
  have "live_entries q' = take l' L"
    using l'L by (simp add: live_entries_def ring' lq')
  then show "live_entries q' = tl (live_entries q)"
    by (simp add: live l')
  show "cap q' = cap q" by (simp add: cap_def len_def b' b)
  show "wf q'"
  proof (rule wfI[where xs = "xs[h := GoNil]" and n = n and h = "(h + 1) mod length xs" and l = l'])
    show "tail q' = int (((h + 1) mod length xs + l') mod length (xs[h := GoNil]))"
      by (simp add: q'_def t l' mod_simps)
    have "drop l' (L @ [GoNil]) = replicate (Suc (length xs - l)) GoNil"
      using l'L by (simp add: dL replicate_append_same)
    moreover have "Suc (length xs - l) = length xs - l'" using lC l' by simp
    ultimately show "drop l' (rotate ((h + 1) mod length xs) (xs[h := GoNil])) =
          replicate (length (xs[h := GoNil]) - l') GoNil"
      using ring' by (simp add: ring_def b' hq')
  qed (use b' len hq' lq' lC l' Cpos in \<open>simp_all\<close>)
qed


lemma Pop_empty: "length_q q = 0 \<Longrightarrow> Pop q = Inr (GoNil, q)"
  by (simp add: Pop_def)

lemma Pop_wf:
  fixes q :: "'a Queue"
  assumes wf: "wf q" and ne: "0 < length_q q"
  shows "\<exists>q'. Pop q = Inr (hd (live_entries q), q') \<and> wf q' \<and>
              live_entries q' = tl (live_entries q) \<and> length_q q' = length_q q - 1 \<and>
              cap q' = (if 0 < length_q q - 1 \<and> length_q q - 1 < cap q div 4
                        then cap q div 2 else cap q)"
proof -
  define q3 where "q3 = q\<lparr>buffer := Slice ((elems (buffer q))[nat (head q) := GoNil]),
                    head := nextpos q (head q), length_q := length_q q - 1\<rparr>"
  note p = take_wf[OF wf ne, folded q3_def]
  have "len (buffer q3) = len (buffer q)" using p(5) by (simp add: cap_def)
  then have np: "nextpos (q\<lparr>buffer := buffer q3\<rparr>) (head q) = nextpos q (head q)"
    by (simp add: nextpos_def)
  have q3: "(let q1 = q\<lparr>buffer := buffer q3\<rparr>;
                q2 = q1\<lparr>head := nextpos q1 (head q1)\<rparr>
            in q2\<lparr>length_q := length_q q2 - 1\<rparr>) = q3"
    by (simp add: Let_def np) (simp add: q3_def)
  have pop: "Pop q = (case (if excessCapacity q3 then shrink q3 else Inr q3) of
                        Inl e \<Rightarrow> Inl e
                      | Inr q4 \<Rightarrow> Inr (hd (live_entries q), q4))"
    using ne q3 by (simp add: Pop_def p(1) p(2) Let_def)
  have l3: "length_q q3 = length_q q - 1" by (simp add: q3_def)
  have ex: "excessCapacity q3 \<longleftrightarrow> 0 < length_q q - 1 \<and> length_q q - 1 < cap q div 4"
    using p(5) by (simp add: excessCapacity_def l3 cap_def)
  show ?thesis
  proof (cases "excessCapacity q3")
    case True
    from shrink_wf[OF p(3) True] obtain q4 where "shrink q3 = Inr q4" "wf q4"
      "live_entries q4 = live_entries q3" "cap q4 = cap q3 div 2" "length_q q4 = length_q q3"
      by blast
    then show ?thesis using True ex p(4) p(5) l3 by (simp add: pop)
  next
    case False
    then have "Pop q = Inr (hd (live_entries q), q3)" by (simp add: pop)
    moreover have "cap q3 = (if 0 < length_q q - 1 \<and> length_q q - 1 < cap q div 4
                        then cap q div 2 else cap q)"
      using False ex p(5) by auto
    ultimately show ?thesis using p(3) p(4) l3 by blast
  qed
qed

section \<open>Reachable queues and the reference model\<close>


lemma wf_length_live: "wf q \<Longrightarrow> int (length (live_entries q)) = length_q q"
  by (erule wfE) (simp add: live_entries_def ring_def)

lemma wf_live_Nil: "wf q \<Longrightarrow> length_q q = 0 \<Longrightarrow> live_entries q = []"
  by (simp add: live_entries_def)

lemma wf_length_pos: "wf q \<Longrightarrow> length_q q \<noteq> 0 \<Longrightarrow> 0 < length_q q"
  by (simp add: wf_def)

lemma reachable_wf: "reachable q \<Longrightarrow> wf q"
proof (induction rule: reachable.induct)
  case new
  show ?case by (rule wf_NewQueue)
next
  case (push q v q')
  then show ?case using Push_wf[of q v] by auto
next
  case (pop q r q')
  show ?case
  proof (cases "length_q q = 0")
    case True
    then show ?thesis using pop by (simp add: Pop_empty)
  next
    case False
    then show ?thesis using pop Pop_wf[of q] wf_length_pos[of q] by auto
  qed
next
  case (clear q)
  show ?case by (simp add: Clear_def wf_init)
qed

lemma step_refines:
  assumes wf: "wf q"
  shows "\<exists>q'. step c q = Inr (fst (ref_step c (live_entries q)), q') \<and> wf q' \<and>
              live_entries q' = snd (ref_step c (live_entries q))"
proof (cases c)
  case (OpPush v)
  from Push_wf[OF wf, of v] obtain q' where "Push v q = Inr q'" "wf q'"
    "live_entries q' = live_entries q @ [v]" "length_q q' = length_q q + 1" by blast
  then show ?thesis using OpPush wf_length_live[OF wf] by (simp add: Length_def)
next
  case OpPop
  show ?thesis
  proof (cases "length_q q = 0")
    case True
    then show ?thesis using OpPop wf wf_live_Nil[OF wf] by (simp add: Pop_empty Length_def)
  next
    case False
    then have pos: "0 < length_q q" using wf by (rule wf_length_pos[rotated])
    from Pop_wf[OF wf pos] obtain q' where p: "Pop q = Inr (hd (live_entries q), q')" "wf q'"
      "live_entries q' = tl (live_entries q)" "length_q q' = length_q q - 1" by blast
    obtain x xs where xs: "live_entries q = x # xs"
      using pos wf_length_live[OF wf] by (cases "live_entries q") auto
    have "length_q q' = int (length xs)" using p(4) wf_length_live[OF wf] xs by simp
    then show ?thesis using OpPop p xs by (simp add: Length_def)
  qed
next
  case OpClear
  then show ?thesis by (simp add: Clear_def wf_init live_entries_init Length_def) (simp add: init_def)
qed

lemma run_refines:
  assumes "wf q"
  shows "\<exists>q'. run cs q = Inr (fst (ref_run cs (live_entries q)), q') \<and> wf q' \<and>
              live_entries q' = snd (ref_run cs (live_entries q))"
  using assms
proof (induction cs arbitrary: q)
  case Nil
  then show ?case by simp
next
  case (Cons c cs)
  from step_refines[OF Cons.prems, of c] obtain q1 where
    s: "step c q = Inr (fst (ref_step c (live_entries q)), q1)" and wf1: "wf q1"
    and l1: "live_entries q1 = snd (ref_step c (live_entries q))" by blast
  from Cons.IH[OF wf1] obtain q2 where
    r: "run cs q1 = Inr (fst (ref_run cs (live_entries q1)), q2)" and wf2: "wf q2"
    and l2: "live_entries q2 = snd (ref_run cs (live_entries q1))" by blast
  show ?case using s r wf2 l2 l1 by (simp add: split_beta)
qed

lemma ref_run_append:
  "ref_run (cs @ ds) xs =
     (fst (ref_run cs xs) @ fst (ref_run ds (snd (ref_run cs xs))),
      snd (ref_run ds (snd (ref_run cs xs))))"
  by (induction cs arbitrary: xs) (simp_all add: split_beta)

lemma ref_run_pushes:
  "snd (ref_run (map OpPush vs) xs) = xs @ vs \<and> pop_results (fst (ref_run (map OpPush vs) xs)) = []"
  by (induction vs arbitrary: xs) (simp_all add: split_beta)

lemma ref_run_pops:
  "pop_results (fst (ref_run (replicate (length xs) OpPop) xs)) = xs"
  by (induction xs) (simp_all add: split_beta)

lemma pop_results_append: "pop_results (xs @ ys) = pop_results xs @ pop_results ys"
  by (induction xs rule: pop_results.induct) simp_all

lemma ref_fifo:
  "pop_results (fst (ref_run (map OpPush vs @ replicate (length vs) OpPop) [])) = vs"
  using ref_run_pops[of vs] by (simp add: ref_run_append pop_results_append ref_run_pushes)

lemma wf_pow2: "wf q \<Longrightarrow> \<exists>n::nat. len (buffer q) = 2 ^ n"
  by (simp add: wf_def cap_def)

lemma wf_cap_pos: "wf q \<Longrightarrow> 1 \<le> len (buffer q)"
  by (auto simp add: wf_def cap_def)

lemma Pop_total:
  assumes "wf q"
  shows "\<exists>r q'. Pop q = Inr (r, q') \<and> wf q'"
proof (cases "length_q q = 0")
  case True
  then show ?thesis using assms by (simp add: Pop_empty)
next
  case False
  then show ?thesis using Pop_wf[OF assms] wf_length_pos[OF assms] by blast
qed

lemma live_entries_NewQueue: "live_entries NewQueue = []"
  by (simp add: NewQueue_def live_entries_init)

lemma Push_nogrow:
  fixes q :: "'a Queue" and v :: "'a interface"
  assumes wf: "wf q" and room: "length_q q \<noteq> len (buffer q)"
  shows "Push v q = Inr (q\<lparr>buffer := Slice ((elems (buffer q))[nat (tail q) := v]),
                           tail := nextpos q (tail q), length_q := length_q q + 1\<rparr>)"
proof -
  define q' where "q' = q\<lparr>buffer := Slice ((elems (buffer q))[nat (tail q) := v]),
                    tail := nextpos q (tail q), length_q := length_q q + 1\<rparr>"
  have lt: "length_q q < cap q" using wf room by (simp add: wf_def cap_def)
  note p = put_wf[OF wf lt, of v, folded q'_def]
  have "len (buffer q') = len (buffer q)" using p(4) by (simp add: cap_def)
  then have np: "nextpos (q\<lparr>buffer := buffer q'\<rparr>) (tail q) = nextpos q (tail q)"
    by (simp add: nextpos_def)
  have "(let q3 = q\<lparr>buffer := buffer q'\<rparr>;
             q4 = q3\<lparr>tail := nextpos q3 (tail q3)\<rparr>
         in q4\<lparr>length_q := length_q q4 + 1\<rparr>) = q'"
    by (simp add: Let_def np) (simp add: q'_def)
  then have "Push v q = Inr q'"
    using room wf_not_nil[OF wf] by (simp add: Push_def p(1) Let_def)
  then show ?thesis by (simp only: q'_def)
qed

lemma String_loop_wf:
  fixes q :: "'a Queue"
  assumes wf: "wf q"
  shows "k \<le> length (live_entries q) \<Longrightarrow>
         String_loop fmt q (int k) ((head q + int k) mod len (buffer q)) acc =
           Inr (acc @ join '' | '' (map (Sprintf_v fmt) (drop k (live_entries q))))"
proof (induction "length (live_entries q) - k" arbitrary: k acc)
  case 0
  then have "k = length (live_entries q)" by simp
  then have "\<not> int k < length_q q" using wf_length_live[OF wf] by simp
  then show ?case using \<open>k = length (live_entries q)\<close>
    by (subst String_loop.simps) simp
next
  case (Suc m)
  from wf obtain xs n h l where
    b: "buffer q = Slice xs" and len: "length xs = 2 ^ n" and h: "head q = int h"
    and l: "length_q q = int l" and hC: "h < length xs" and lC: "l \<le> length xs"
    by (rule wfE)
  have ll: "length (live_entries q) = l" using wf_length_live[OF wf] l by simp
  have kl: "k < l" using Suc.hyps(2) ll by simp
  have Cpos: "0 < length xs" using len by simp
  define j where "j = (h + k) mod length xs"
  have jC: "j < length xs" using Cpos by (simp add: j_def)
  have jq: "(head q + int k) mod len (buffer q) = int j"
    by (simp add: h len_def b j_def zmod_int)
  have len2: "len (buffer q) = 2 ^ n" using len by (simp add: len_def b)
  have nj: "nextpos q (int j) = (head q + int (Suc k)) mod len (buffer q)"
    unfolding nextpos_mod[OF len2]
    by (simp add: j_def h len_def b zmod_int mod_simps add.commute add.left_commute)
  have ek: "live_entries q ! k = xs ! j"
    using kl lC by (simp add: live_entries_def ring_def b h l nth_rotate j_def)
  have idx: "index (buffer q) (int j) = Inr (live_entries q ! k)"
    using jC by (simp add: index_def b len_def ek)
  have dk: "drop k (live_entries q) = live_entries q ! k # drop (Suc k) (live_entries q)"
    using kl ll by (simp add: Cons_nth_drop_Suc)
  have IH: "String_loop fmt q (int (Suc k)) ((head q + int (Suc k)) mod len (buffer q)) acc' =
           Inr (acc' @ join '' | '' (map (Sprintf_v fmt) (drop (Suc k) (live_entries q))))" for acc'
    using Suc.hyps(1)[of "Suc k" acc'] Suc.hyps(2) kl ll by simp
  have cond: "int k < length_q q" using kl l by simp
  have one: "int k + 1 = int (Suc k)" by simp
  show ?case
  proof (cases "Suc k < l")
    case True
    then obtain y ys where ys: "drop (Suc k) (live_entries q) = y # ys"
      using ll by (cases "drop (Suc k) (live_entries q)") auto
    have c2: "int k < length_q q - 1" using True l by simp
    show ?thesis
      unfolding jq
      by (subst String_loop.simps) (simp add: cond c2 idx nj one IH dk ys del: of_nat_Suc)
  next
    case False
    then have ys: "drop (Suc k) (live_entries q) = []" using ll by simp
    have c2: "\<not> int k < length_q q - 1" using False l by simp
    show ?thesis
      unfolding jq
      by (subst String_loop.simps) (simp add: cond c2 idx nj one IH dk ys del: of_nat_Suc)
  qed
qed

lemma String_wf:
  assumes wf: "wf q"
  shows "String fmt q = Inr (join '' | '' (map (Sprintf_v fmt) (live_entries q)))"
proof -
  have "head q mod len (buffer q) = head q"
    using wf by (simp add: wf_def cap_def)
  then show ?thesis using String_loop_wf[OF wf, of 0 fmt "[]"] by (simp add: String_def)
qed

section \<open>Slots outside the live range\<close>

lemma dead_slots_nil:
  fixes q :: "'a Queue"
  assumes wf: "wf q" and i0: "0 \<le> i" and iC: "i < len (buffer q)"
    and nl: "i \<notin> set (live_positions q)"
  shows "index (buffer q) i = Inr GoNil"
proof -
  from wf obtain xs n h l where
    b: "buffer q = Slice xs" and len: "length xs = 2 ^ n" and h: "head q = int h"
    and l: "length_q q = int l" and hC: "h < length xs" and lC: "l \<le> length xs"
    and dead: "drop l (rotate h xs) = replicate (length xs - l) GoNil"
    by (rule wfE)
  define p where "p = nat i"
  have ip: "i = int p" using i0 by (simp add: p_def)
  have pC: "p < length xs" using iC by (simp add: ip len_def b)
  define k where "k = (p + (length xs - h)) mod length xs"
  have Cpos: "0 < length xs" using len by simp
  have kC: "k < length xs" using Cpos by (simp add: k_def)
  have "h + (p + (length xs - h)) = p + length xs" using hC by simp
  then have hk: "(h + k) mod length xs = p"
    using pC by (simp add: k_def mod_simps)
  have "\<not> k < l"
  proof
    assume "k < l"
    then have "(head q + int k) mod len (buffer q) \<in> set (live_positions q)"
      by (simp add: live_positions_def l)
    moreover have "int ((h + k) mod length xs) = int p" using hk by simp
    then have "(head q + int k) mod len (buffer q) = i"
      by (simp add: h len_def b ip zmod_int)
    ultimately show False using nl by simp
  qed
  then have lk: "l \<le> k" by simp
  have "xs ! p = rotate h xs ! k" using kC by (simp add: nth_rotate hk)
  also have "\<dots> = drop l (rotate h xs) ! (k - l)" using lk kC by simp
  also have "\<dots> = GoNil" using lk kC by (simp add: dead)
  finally show ?thesis using pC i0 by (simp add: index_def b len_def ip)
qed

lemma Peek_empty:
  assumes wf: "wf q" and e: "length_q q = 0"
  shows "Peek q = Inr GoNil"
  unfolding Peek_def
proof (rule dead_slots_nil[OF wf])
  show "0 \<le> head q" "head q < len (buffer q)" using wf by (simp_all add: wf_def cap_def)
  show "head q \<notin> set (live_positions q)" using e by (simp add: live_positions_def)
qed

lemma test_run:
  "run [OpPush (Val ''A''), OpPush (Val ''B''), OpPop, OpPush (Val ''C''), OpPush (Val ''D'')]
       NewQueue =
   Inr ([(None, 1), (None, 2), (Some (Val ''A''), 1), (None, 2), (None, 3)],
        \<lparr>buffer = Slice [Val ''B'', Val ''C'', Val ''D'', GoNil], head = 0, tail = 3,
           length_q = 3\<rparr>)"
  by (simp add: Push_def Pop_def Length_def NewQueue_def init_def zero_Queue_def len_def
      store_def index_def nextpos_def grow_def shrink_def resize_def subslice_def copy_def
      excessCapacity_def Let_def eval_nat_numeral)

lemma test_String:
  "String (\<lambda>s. s) \<lparr>buffer = Slice [Val ''B'', Val ''C'', Val ''D'', GoNil], head = 0, tail = 3,
           length_q = 3\<rparr> = Inr ''B | C | D''"
  by (simp add: String_def String_loop.simps index_def len_def nextpos_def Let_def)

section \<open>Histories reach only reachable queues\<close>

lemma step_reachable: "reachable q \<Longrightarrow> step c q = Inr (ob, q') \<Longrightarrow> reachable q'"
  by (cases c) (auto split: sum.splits intro: reachable.intros)

lemma run_reachable: "reachable q \<Longrightarrow> run cs q = Inr (obs, q') \<Longrightarrow> reachable q'"
proof (induction cs arbitrary: q obs)
  case Nil
  then show ?case by simp
next
  case (Cons c cs)
  from Cons.prems(2) obtain ob q1 obs1 where
    s: "step c q = Inr (ob, q1)" and r: "run cs q1 = Inr (obs1, q')"
    by (auto split: sum.splits)
  have "reachable q1" using Cons.prems(1) s by (rule step_reachable)
  then show ?case using r by (rule Cons.IH)
qed

lemma run_live_entries:
  assumes "run cs NewQueue = Inr (obs, q)"
  shows "wf q \<and> live_entries q = snd (ref_run cs [])"
  using run_refines[OF wf_NewQueue, of cs] assms by (auto simp add: live_entries_NewQueue)

lemma sparse_run:
  "run [OpPush (Val 1), OpPush (Val 2), OpPush (Val 3), OpPush (Val 4), OpPush (Val 5),
        OpPop, OpPop, OpPop] NewQueue =
   Inr ([(None, 1), (None, 2), (None, 3), (None, 4), (None, 5),
         (Some (Val 1), 4), (Some (Val 2), 3), (Some (Val 3), 2)],
        \<lparr>buffer = Slice [GoNil, GoNil, GoNil, Val (4::nat), Val 5, GoNil, GoNil, GoNil],
           head = 3, tail = 5, length_q = 2\<rparr>)"
  by (simp add: Push_def Pop_def Length_def NewQueue_def init_def zero_Queue_def len_def
      store_def index_def nextpos_def grow_def shrink_def resize_def subslice_def copy_def
      excessCapacity_def Let_def eval_nat_numeral)

lemma wrapped_run:
  "run [OpPush (Val 1), OpPush (Val 2), OpPop] NewQueue =
   Inr ([(None, 1), (None, 2), (Some (Val 1), 1)],
        \<lparr>buffer = Slice [GoNil, Val (2::nat)], head = 1, tail = 0, length_q = 1\<rparr>)"
  by (simp add: Push_def Pop_def Length_def NewQueue_def init_def zero_Queue_def len_def
      store_def index_def nextpos_def grow_def shrink_def resize_def subslice_def copy_def
      excessCapacity_def Let_def eval_nat_numeral)

section \<open>Push on an arbitrary state\<close>

lemma copy_length: "off \<le> length dst \<Longrightarrow> length (snd (copy dst off src)) = length dst"
  by (simp add: copy_def Let_def min_def)

lemma copy_count: "fst (copy dst 0 src) \<le> length dst"
  by (simp add: copy_def Let_def)

lemma resize_len:
  assumes r: "resize (2 * c) q = Inr g" and c0: "0 \<le> c"
  shows "len (buffer g) = 2 * c"
proof -
  define nb :: "'a interface list" where "nb = replicate (nat (2 * c)) GoNil"
  have lnb: "length nb = nat (2 * c)" by (simp add: nb_def)
  have sz: "(if (2 * c) mod 2 \<noteq> 0 then 2 * c + 1 else 2 * c) = 2 * c" by simp
  have nneg: "\<not> 2 * c < 0" using c0 by simp
  show ?thesis
  proof (cases "head q < tail q")
    case True
    then obtain src where "subslice (buffer q) (head q) (tail q) = Inr src"
      and "g = q\<lparr>buffer := Slice (snd (copy nb 0 src)), head := 0, tail := length_q q\<rparr>"
      using r unfolding resize_def sz Let_def nb_def[symmetric]
      by (simp add: nneg split: sum.splits)
    then show ?thesis using c0 by (simp add: len_def copy_length lnb)
  next
    case False
    then obtain src1 src2 where "subslice (buffer q) (head q) (len (buffer q)) = Inr src1"
      and "subslice (buffer q) 0 (tail q) = Inr src2"
      and "g = q\<lparr>buffer := Slice (snd (copy (snd (copy nb 0 src1)) (fst (copy nb 0 src1)) src2)),
                  head := 0, tail := length_q q\<rparr>"
      using r unfolding resize_def sz Let_def nb_def[symmetric]
      by (simp add: nneg split_beta split: sum.splits)
    moreover have "fst (copy nb 0 src1) \<le> length (snd (copy nb 0 src1))"
      using copy_count[of nb src1] by (simp add: copy_length)
    ultimately show ?thesis using c0 by (simp add: len_def copy_length lnb)
  qed
qed

lemma store_len: "store b i v = Inr b' \<Longrightarrow> len b' = len b"
  by (simp add: store_def len_def split: if_splits) auto

lemma Push_len_any:
  fixes q :: "'a Queue"
  assumes p: "Push v q = Inr q'"
  defines "q1 \<equiv> (if buffer q = NilSlice then init q else q)"
  shows "len (buffer q') =
           (if length_q q1 = len (buffer q1) then 2 * len (buffer q1) else len (buffer q1))"
proof -
  obtain q2 where q2: "(if length_q q1 = len (buffer q1) then grow q1 else Inr q1) = Inr q2"
    and s: "(case store (buffer q2) (tail q2) v of
               Inl e \<Rightarrow> Inl e
             | Inr b \<Rightarrow>
                 let q3 = q2\<lparr>buffer := b\<rparr>;
                     q4 = q3\<lparr>tail := nextpos q3 (tail q3)\<rparr>
                 in Inr (q4\<lparr>length_q := length_q q4 + 1\<rparr>)) = Inr q'"
    using p unfolding Push_def Let_def q1_def[symmetric]
    by (cases "if length_q q1 = len (buffer q1) then grow q1 else Inr q1") simp_all
  obtain b where b: "store (buffer q2) (tail q2) v = Inr b" and q': "buffer q' = b"
    using s by (cases "store (buffer q2) (tail q2) v") (auto simp add: Let_def)
  have l2: "len (buffer q') = len (buffer q2)" using store_len[OF b] q' by simp
  show ?thesis
  proof (cases "length_q q1 = len (buffer q1)")
    case True
    then have "grow q1 = Inr q2" using q2 by simp
    moreover have "len (buffer q1) * 2 = 2 * len (buffer q1)" by simp
    ultimately have "resize (2 * len (buffer q1)) q1 = Inr q2"
      unfolding grow_def by (simp only:)
    then have "len (buffer q2) = 2 * len (buffer q1)"
      by (rule resize_len) (simp add: len_def)
    then show ?thesis using True l2 by simp
  next
    case False
    then show ?thesis using q2 l2 by simp
  qed
qed

section \<open>The claims\<close>

text \<open>
  C1. For every finite sequence of \<^verbatim>\<open>Push\<close>, \<^verbatim>\<open>Pop\<close> and \<^verbatim>\<open>Clear\<close> calls on a queue from
  \<^verbatim>\<open>NewQueue\<close>, no call panics and what the caller observes (the value each \<^verbatim>\<open>Pop\<close>
  returns, \<^verbatim>\<open>Length\<close> after each call) is what the list-based reference model gives; and
  pushing \<open>vs\<close> and then popping as many times returns exactly \<open>vs\<close>, in order.
\<close>

theorem C1_fifo_refinement:
  "(\<exists>q'. run cs NewQueue = Inr (fst (ref_run cs []), q')) \<and>
   (\<exists>obs q'. run (map OpPush vs @ replicate (length vs) OpPop) NewQueue = Inr (obs, q') \<and>
              pop_results obs = vs)"
proof
  show "\<exists>q'. run cs NewQueue = Inr (fst (ref_run cs []), q')"
    using run_refines[OF wf_NewQueue, of cs] by (auto simp add: live_entries_NewQueue)
next
  let ?cs = "map OpPush vs @ replicate (length vs) OpPop"
  from run_refines[OF wf_NewQueue, of ?cs] obtain q' where
    "run ?cs NewQueue = Inr (fst (ref_run ?cs []), q')"
    by (auto simp add: live_entries_NewQueue)
  then show "\<exists>obs q'. run ?cs NewQueue = Inr (obs, q') \<and> pop_results obs = vs"
    using ref_fifo[of vs] by blast
qed

text \<open>
  C2. The buffer of every reachable queue has a length that is a power of two, at least 1;
  \<^verbatim>\<open>Push\<close> (with its grow), \<^verbatim>\<open>Pop\<close> (with its shrink) and \<^verbatim>\<open>Clear\<close> return on it and leave
  a buffer whose length is again a power of two.
\<close>

theorem C2_capacity_power_of_two:
  assumes "reachable q"
  shows "(\<exists>n::nat. len (buffer q) = 2 ^ n) \<and> 1 \<le> len (buffer q) \<and>
         (\<exists>q'. Push v q = Inr q' \<and> (\<exists>n::nat. len (buffer q') = 2 ^ n)) \<and>
         (\<exists>r q'. Pop q = Inr (r, q') \<and> (\<exists>n::nat. len (buffer q') = 2 ^ n)) \<and>
         (\<exists>n::nat. len (buffer (Clear q)) = 2 ^ n)"
proof -
  have wf: "wf q" using assms by (rule reachable_wf)
  have "\<exists>q'. Push v q = Inr q' \<and> (\<exists>n::nat. len (buffer q') = 2 ^ n)"
    using Push_wf[OF wf, of v] wf_pow2 by blast
  moreover have "\<exists>r q'. Pop q = Inr (r, q') \<and> (\<exists>n::nat. len (buffer q') = 2 ^ n)"
    using Pop_total[OF wf] wf_pow2 by blast
  moreover have "\<exists>n::nat. len (buffer (Clear q)) = 2 ^ n"
    using wf_pow2[OF wf_init, of q] by (simp add: Clear_def)
  ultimately show ?thesis using wf_pow2[OF wf] wf_cap_pos[OF wf] by blast
qed

theorem C2_witness:
  "reachable \<lparr>buffer = Slice [Val (1::nat)], head = 0, tail = 0, length_q = 1\<rparr> \<and>
   (\<exists>n::nat. len (buffer \<lparr>buffer = Slice [Val (1::nat)], head = 0, tail = 0, length_q = 1\<rparr>) = 2 ^ n)"
proof -
  have r: "reachable \<lparr>buffer = Slice [Val (1::nat)], head = 0, tail = 0, length_q = 1\<rparr>"
    by (rule reachable.push[OF reachable.new, of "Val 1"])
       (simp add: Push_def NewQueue_def init_def zero_Queue_def len_def store_def nextpos_def)
  show ?thesis using r C2_capacity_power_of_two[OF r] by blast
qed

text \<open>
  C3. Every reachable queue satisfies \<open>tail = (head + length) mod C\<close> for the length \<open>C\<close> of its
  buffer, with \<open>0 \<le> head < C\<close>, \<open>0 \<le> tail < C\<close> and \<open>0 \<le> length \<le> C\<close>.
\<close>

theorem C3_tail_head_length:
  assumes "reachable q"
  shows "tail q = (head q + length_q q) mod len (buffer q) \<and>
         0 \<le> head q \<and> head q < len (buffer q) \<and>
         0 \<le> tail q \<and> tail q < len (buffer q) \<and>
         0 \<le> length_q q \<and> length_q q \<le> len (buffer q)"
proof -
  have wf: "wf q" using assms by (rule reachable_wf)
  have pos: "0 < len (buffer q)" using wf_cap_pos[OF wf] by simp
  have t: "tail q = (head q + length_q q) mod len (buffer q)"
    using wf by (simp add: wf_def cap_def)
  have "0 \<le> tail q" "tail q < len (buffer q)" using pos by (simp_all add: t)
  then show ?thesis using wf t by (simp add: wf_def cap_def)
qed

theorem C3_witness:
  "reachable \<lparr>buffer = Slice [Val (1::nat)], head = 0, tail = 0, length_q = 1\<rparr> \<and>
   tail \<lparr>buffer = Slice [Val (1::nat)], head = 0, tail = 0, length_q = 1\<rparr> =
     (head \<lparr>buffer = Slice [Val (1::nat)], head = 0, tail = 0, length_q = 1\<rparr> +
      length_q \<lparr>buffer = Slice [Val (1::nat)], head = 0, tail = 0, length_q = 1\<rparr>)
     mod len (buffer \<lparr>buffer = Slice [Val (1::nat)], head = 0, tail = 0, length_q = 1\<rparr>)"
proof -
  have r: "reachable \<lparr>buffer = Slice [Val (1::nat)], head = 0, tail = 0, length_q = 1\<rparr>"
    by (rule reachable.push[OF reachable.new, of "Val 1"])
       (simp add: Push_def NewQueue_def init_def zero_Queue_def len_def store_def nextpos_def)
  show ?thesis using r C3_tail_head_length[OF r] by blast
qed

text \<open>
  C4. On a reachable queue \<^verbatim>\<open>Push\<close> returns, and it grows exactly when the length equals
  the length of the buffer at the call: then \<^verbatim>\<open>grow\<close> returns a buffer of exactly twice the
  length, again a power of two, which is the capacity after the push; otherwise the buffer
  keeps its length, the head stays and only the slot at the tail is written. On any state at
  all, reachable or not, a \<^verbatim>\<open>Push\<close> that returns leaves a buffer of twice the length it had
  at the test (after the lazy \<^verbatim>\<open>init\<close> of a nil buffer) when the length equalled it there,
  and of the same length otherwise.
\<close>

theorem C4_grow_iff_full:
  assumes "reachable q"
  shows "(\<exists>q'. Push v q = Inr q' \<and>
           (if length_q q = len (buffer q)
            then (\<exists>g. grow q = Inr g \<and> len (buffer g) = 2 * len (buffer q) \<and>
                      (\<exists>n::nat. len (buffer g) = 2 ^ n) \<and> len (buffer q') = len (buffer g))
            else len (buffer q') = len (buffer q) \<and> head q' = head q \<and>
                 elems (buffer q') = (elems (buffer q))[nat (tail q) := v])) \<and>
         (\<forall>p p'. Push v p = Inr p' \<longrightarrow>
            len (buffer p') =
              (if length_q (if buffer p = NilSlice then init p else p) =
                  len (buffer (if buffer p = NilSlice then init p else p))
               then 2 * len (buffer (if buffer p = NilSlice then init p else p))
               else len (buffer (if buffer p = NilSlice then init p else p))))"
proof
  show "\<exists>q'. Push v q = Inr q' \<and>
           (if length_q q = len (buffer q)
            then (\<exists>g. grow q = Inr g \<and> len (buffer g) = 2 * len (buffer q) \<and>
                      (\<exists>n::nat. len (buffer g) = 2 ^ n) \<and> len (buffer q') = len (buffer g))
            else len (buffer q') = len (buffer q) \<and> head q' = head q \<and>
                 elems (buffer q') = (elems (buffer q))[nat (tail q) := v])"
  proof (cases "length_q q = len (buffer q)")
    case True
    have wf: "wf q" using assms by (rule reachable_wf)
    from grow_wf[OF wf] True obtain g where g: "grow q = Inr g" "wf g" "cap g = 2 * cap q"
      by (auto simp add: cap_def)
    from Push_wf[OF wf, of v] True obtain q' where "Push v q = Inr q'" "cap q' = 2 * cap q"
      by (auto simp add: cap_def)
    then show ?thesis using True g wf_pow2[OF g(2)] by (auto simp add: cap_def)
  next
    case False
    have wf: "wf q" using assms by (rule reachable_wf)
    show ?thesis using False by (simp add: Push_nogrow[OF wf False] len_def)
  qed
next
  show "\<forall>p p'. Push v p = Inr p' \<longrightarrow>
            len (buffer p') =
              (if length_q (if buffer p = NilSlice then init p else p) =
                  len (buffer (if buffer p = NilSlice then init p else p))
               then 2 * len (buffer (if buffer p = NilSlice then init p else p))
               else len (buffer (if buffer p = NilSlice then init p else p)))"
    using Push_len_any by blast
qed

theorem C4_witness:
  "reachable \<lparr>buffer = Slice [Val (1::nat)], head = 0, tail = 0, length_q = 1\<rparr> \<and>
   (\<exists>q'. Push (Val 2) \<lparr>buffer = Slice [Val (1::nat)], head = 0, tail = 0, length_q = 1\<rparr> = Inr q' \<and>
         len (buffer q') = 2)"
proof -
  have r: "reachable \<lparr>buffer = Slice [Val (1::nat)], head = 0, tail = 0, length_q = 1\<rparr>"
    by (rule reachable.push[OF reachable.new, of "Val 1"])
       (simp add: Push_def NewQueue_def init_def zero_Queue_def len_def store_def nextpos_def)
  show ?thesis using r C4_grow_iff_full[OF r, of "Val 2"] by (auto simp add: len_def)
qed

text \<open>
  C5. On a reachable queue \<^verbatim>\<open>Pop\<close> returns, and the buffer is halved exactly when the length
  after the removal is positive and below a quarter (integer division) of the buffer length
  before the call; otherwise the buffer keeps its length. The buffer length never falls below
  1, and a pop that leaves the queue empty does not shrink.
\<close>

theorem C5_shrink_iff_sparse:
  assumes "reachable q"
  shows "1 \<le> len (buffer q) \<and>
         (\<exists>r q'. Pop q = Inr (r, q') \<and> 1 \<le> len (buffer q') \<and>
            (if 0 < length_q q' \<and> length_q q' < len (buffer q) div 4
             then len (buffer q') = len (buffer q) div 2
             else len (buffer q') = len (buffer q)) \<and>
            (length_q q' = 0 \<longrightarrow> len (buffer q') = len (buffer q)))"
proof -
  have wf: "wf q" using assms by (rule reachable_wf)
  have c1: "1 \<le> len (buffer q)" by (rule wf_cap_pos[OF wf])
  show ?thesis
  proof (cases "length_q q = 0")
    case True
    then show ?thesis using c1 by (simp add: Pop_empty)
  next
    case False
    then have pos: "0 < length_q q" using wf by (rule wf_length_pos[rotated])
    from Pop_wf[OF wf pos] obtain q' where p: "Pop q = Inr (hd (live_entries q), q')" "wf q'"
      "length_q q' = length_q q - 1"
      "cap q' = (if 0 < length_q q - 1 \<and> length_q q - 1 < cap q div 4
                 then cap q div 2 else cap q)" by blast
    have "1 \<le> len (buffer q')" by (rule wf_cap_pos[OF p(2)])
    moreover have "(if 0 < length_q q' \<and> length_q q' < len (buffer q) div 4
             then len (buffer q') = len (buffer q) div 2
             else len (buffer q') = len (buffer q))"
      using p(4) by (simp add: p(3) cap_def)
    moreover have "length_q q' = 0 \<longrightarrow> len (buffer q') = len (buffer q)"
      using p(4) by (simp add: p(3) cap_def)
    ultimately show ?thesis using c1 p(1) by blast
  qed
qed

theorem C5_witness:
  "reachable \<lparr>buffer = Slice [GoNil, GoNil, GoNil, Val (4::nat), Val 5, GoNil, GoNil, GoNil],
              head = 3, tail = 5, length_q = 2\<rparr> \<and>
   (\<exists>r q'. Pop \<lparr>buffer = Slice [GoNil, GoNil, GoNil, Val (4::nat), Val 5, GoNil, GoNil, GoNil],
                 head = 3, tail = 5, length_q = 2\<rparr> = Inr (r, q') \<and> len (buffer q') = 4)"
proof -
  have r: "reachable \<lparr>buffer = Slice [GoNil, GoNil, GoNil, Val (4::nat), Val 5, GoNil, GoNil, GoNil],
              head = 3, tail = 5, length_q = 2\<rparr>"
    by (rule run_reachable[OF reachable.new sparse_run])
  show ?thesis using r C5_shrink_iff_sparse[OF r]
    by (auto simp add: len_def Pop_def index_def store_def nextpos_def excessCapacity_def
        shrink_def resize_def subslice_def copy_def Let_def)
qed

text \<open>
  C6. On every queue state whose length is 0, \<^verbatim>\<open>Pop\<close> returns \<^verbatim>\<open>nil\<close> and leaves the whole
  state (buffer, head, tail, length) as it was.
\<close>

theorem C6_pop_empty_no_mutation:
  "length_q q = 0 \<Longrightarrow> Pop q = Inr (GoNil, q)"
  by (simp add: Pop_def)

theorem C6_witness:
  "length_q \<lparr>buffer = Slice [GoNil, Val (7::nat)], head = 1, tail = 1, length_q = 0\<rparr> = 0 \<and>
   Pop \<lparr>buffer = Slice [GoNil, Val (7::nat)], head = 1, tail = 1, length_q = 0\<rparr> =
     Inr (GoNil, \<lparr>buffer = Slice [GoNil, Val (7::nat)], head = 1, tail = 1, length_q = 0\<rparr>)"
  using C6_pop_empty_no_mutation
    [of "\<lparr>buffer = Slice [GoNil, Val (7::nat)], head = 1, tail = 1, length_q = 0\<rparr>"]
  by simp

text \<open>
  C7. A queue from \<^verbatim>\<open>NewQueue\<close> has \<^verbatim>\<open>Length() = 0\<close>, and \<^verbatim>\<open>Pop\<close> and \<^verbatim>\<open>Peek\<close> on it return
  \<^verbatim>\<open>nil\<close> without a panic.
\<close>

theorem C7_fresh_queue:
  "Length NewQueue = 0 \<and> Pop NewQueue = Inr (GoNil, NewQueue) \<and> Peek NewQueue = Inr GoNil"
  by (simp add: Length_def Pop_def Peek_def NewQueue_def init_def zero_Queue_def index_def len_def)

text \<open>
  C8. On a reachable queue \<^verbatim>\<open>String\<close> returns the live entries from head to tail, each
  printed with \<^verbatim>\<open>%v\<close>, joined by \<^verbatim>\<open>" | "\<close> with none before the first or after the last,
  and the empty string when the length is 0; the live entries are the contents of the
  reference model after the same history. After pushing A and B, popping once and pushing C
  and D on a new queue, \<^verbatim>\<open>String\<close> returns \<^verbatim>\<open>B | C | D\<close>.
\<close>

theorem C8_String_rendering:
  assumes "reachable q"
  shows "String fmt q = Inr (join '' | '' (map (Sprintf_v fmt) (live_entries q))) \<and>
         (length_q q = 0 \<longrightarrow> String fmt q = Inr []) \<and>
         (\<forall>cs obs. run cs NewQueue = Inr (obs, q) \<longrightarrow> live_entries q = snd (ref_run cs [])) \<and>
         (\<exists>obs t. run [OpPush (Val ''A''), OpPush (Val ''B''), OpPop, OpPush (Val ''C''),
                        OpPush (Val ''D'')] NewQueue = Inr (obs, t) \<and>
                   String (\<lambda>s. s) t = Inr ''B | C | D'')"
proof -
  have wf: "wf q" using assms by (rule reachable_wf)
  have s: "String fmt q = Inr (join '' | '' (map (Sprintf_v fmt) (live_entries q)))"
    by (rule String_wf[OF wf])
  have e: "length_q q = 0 \<longrightarrow> String fmt q = Inr []"
    using wf_live_Nil[OF wf] by (simp add: s)
  have f: "\<forall>cs obs. run cs NewQueue = Inr (obs, q) \<longrightarrow> live_entries q = snd (ref_run cs [])"
    using run_live_entries by blast
  show ?thesis using s e f test_run test_String by blast
qed

theorem C8_witness:
  "reachable \<lparr>buffer = Slice [Val ''B'', Val ''C'', Val ''D'', GoNil], head = 0, tail = 3,
              length_q = 3\<rparr> \<and>
   String (\<lambda>s. s) \<lparr>buffer = Slice [Val ''B'', Val ''C'', Val ''D'', GoNil], head = 0, tail = 3,
              length_q = 3\<rparr> = Inr ''B | C | D''"
proof -
  have r: "reachable \<lparr>buffer = Slice [Val ''B'', Val ''C'', Val ''D'', GoNil], head = 0, tail = 3,
              length_q = 3\<rparr>"
    by (rule run_reachable[OF reachable.new test_run])
  show ?thesis using r C8_String_rendering[OF r, of "\<lambda>s. s"]
    by (simp add: live_entries_def ring_def eval_nat_numeral)
qed

text \<open>
  C9. Whatever the queue held, \<^verbatim>\<open>Clear\<close> leaves the state of a new queue: length 0, head 0,
  tail 0 and a buffer of one \<^verbatim>\<open>nil\<close> slot; \<^verbatim>\<open>Pop\<close> and \<^verbatim>\<open>Peek\<close> then return \<^verbatim>\<open>nil\<close>.
\<close>

theorem C9_clear_resets:
  fixes q :: "'a Queue"
  shows "Clear q = NewQueue \<and> Length (Clear q) = 0 \<and> head (Clear q) = 0 \<and>
         tail (Clear q) = 0 \<and> buffer (Clear q) = Slice [GoNil] \<and> len (buffer (Clear q)) = 1 \<and>
         Pop (Clear q) = Inr (GoNil, Clear q) \<and> Peek (Clear q) = Inr GoNil"
  by (simp add: Clear_def Length_def Pop_def Peek_def NewQueue_def init_def zero_Queue_def
      index_def len_def)

text \<open>
  C10. In every reachable queue each buffer slot outside the live range (the \<open>length\<close> slots
  from \<open>head\<close> on, wrapping) holds \<^verbatim>\<open>nil\<close>; so \<^verbatim>\<open>Peek\<close>, which reads the slot at \<open>head\<close>
  without a test, returns \<^verbatim>\<open>nil\<close> on a reachable empty queue.
\<close>

theorem C10_dead_slots_nil:
  assumes "reachable q"
  shows "(\<forall>i. 0 \<le> i \<and> i < len (buffer q) \<and> i \<notin> set (live_positions q) \<longrightarrow>
              index (buffer q) i = Inr GoNil) \<and>
         (length_q q = 0 \<longrightarrow> Peek q = Inr GoNil)"
proof -
  have wf: "wf q" using assms by (rule reachable_wf)
  show ?thesis using dead_slots_nil[OF wf] Peek_empty[OF wf] by blast
qed

theorem C10_witness:
  "reachable \<lparr>buffer = Slice [GoNil, Val (2::nat)], head = 1, tail = 0, length_q = 1\<rparr> \<and>
   index (buffer \<lparr>buffer = Slice [GoNil, Val (2::nat)], head = 1, tail = 0, length_q = 1\<rparr>) 0
     = Inr GoNil"
proof -
  have r: "reachable \<lparr>buffer = Slice [GoNil, Val (2::nat)], head = 1, tail = 0, length_q = 1\<rparr>"
    by (rule run_reachable[OF reachable.new wrapped_run])
  have "(0::int) \<notin> set (live_positions \<lparr>buffer = Slice [GoNil, Val (2::nat)], head = 1, tail = 0, length_q = 1\<rparr>)"
    by (simp add: live_positions_def len_def)
  then show ?thesis using r C10_dead_slots_nil[OF r] by (simp add: len_def)
qed

end
